theory Spec2Isabelle
  imports Complex_Main
begin

section \<open>The tournament battle engine (battle_utils.py)\<close>

text \<open>
  A shallow embedding of \<^verbatim>\<open>ballsdex/packages/tournament/battle_utils.py\<close>.

  \<^item> The two dataclasses are records with the fields of the source.
  \<^item> Python integers are \<open>int\<close>; the product \<^verbatim>\<open>ball.attack * random.uniform(0.8, 1.2)\<close>
    is taken exactly, over \<open>rat\<close> (the rounding of binary floating point is not modelled).
  \<^item> The objects of a roster are mutated in place and the snapshots
    \<^verbatim>\<open>alive_p1_balls\<close>, \<^verbatim>\<open>alive_p2_balls\<close> hold references to them: a reference is
    the position of the object in its roster, so that a test \<^verbatim>\<open>p1_ball.dead\<close> reads
    the current object. The objects of the two rosters are distinct, as
    \<^verbatim>\<open>simulate_tournament_battle\<close> builds them.
  \<^item> The global random generator is an explicit supply of draws, one element per attack
    attempt, holding what the three library calls of that attempt return. The supply is
    finite; the generator of Python never runs dry, so a run of the program is the run of
    the model on a long enough prefix of an endless supply, and a battle that never ends
    is one that exhausts every prefix.
  \<^item> An exception is a value \<open>Inl e\<close>; the lines of the generator are collected in order.
\<close>

subsection \<open>Data\<close>

record BattleBall =
  name :: string
  owner :: string
  health :: int
  attack :: int
  emoji :: string
  dead :: bool

record BattleInstance =
  p1_balls :: "BattleBall list"
  p2_balls :: "BattleBall list"
  winner :: string
  turns :: int

text \<open>
  What the random generator returns during one attack attempt:
  \<open>miss_roll\<close> is the value of \<^verbatim>\<open>random.randint(0, 100)\<close>, \<open>target\<close> selects the
  element that \<^verbatim>\<open>random.choice(alive_balls)\<close> returns (position \<open>target mod n\<close> of the
  \<open>n\<close> living balls), \<open>multiplier\<close> is the value of \<^verbatim>\<open>random.uniform(0.8, 1.2)\<close>.
  The last two calls are made only when the attempt is not a miss.
\<close>

record draw =
  miss_roll :: int
  target :: nat
  multiplier :: rat


datatype error = OutOfEntropy | IndexError

text \<open>The local state of the generator \<^verbatim>\<open>gen_battle\<close>.\<close>

record gen_state =
  battle :: BattleInstance
  turn :: int
  yielded :: "string list"

subsection \<open>Formatting\<close>

fun str_nat :: "nat \<Rightarrow> string" where
  "str_nat n =
     (if n < 10 then [''0123456789'' ! n]
      else str_nat (n div 10) @ [''0123456789'' ! (n mod 10)])"

declare str_nat.simps [simp del]

definition str_int :: "int \<Rightarrow> string" where
  "str_int i = (if i < 0 then ''-'' @ str_nat (nat (- i)) else str_nat (nat i))"

text \<open>Python's \<^verbatim>\<open>int(x)\<close> on a float: truncation toward zero.\<close>

definition py_int :: "rat \<Rightarrow> int" where
  "py_int x = (if 0 \<le> x then \<lfloor>x\<rfloor> else \<lceil>x\<rceil>)"

subsection \<open>The functions of the source\<close>

text \<open>\<^verbatim>\<open>get_damage(ball)\<close>, with the value \<open>u\<close> of \<^verbatim>\<open>random.uniform(0.8, 1.2)\<close>.\<close>

definition get_damage :: "BattleBall \<Rightarrow> rat \<Rightarrow> int" where
  "get_damage ball u = py_int (of_int (attack ball) * u)"

text \<open>The living balls of a roster, as references, in roster order.\<close>

definition alive :: "BattleBall list \<Rightarrow> nat list" where
  "alive balls = filter (\<lambda>i. \<not> dead (balls ! i)) [0..<length balls]"

definition killed_text :: "BattleBall \<Rightarrow> BattleBall \<Rightarrow> string" where
  "killed_text current_ball enemy =
     owner current_ball @ [CHR 0x27] @ ''s '' @ name current_ball @ '' has killed ''
       @ owner enemy @ [CHR 0x27] @ ''s '' @ name enemy"

definition dealt_text :: "BattleBall \<Rightarrow> int \<Rightarrow> BattleBall \<Rightarrow> string" where
  "dealt_text current_ball attack_dealt enemy =
     owner current_ball @ [CHR 0x27] @ ''s '' @ name current_ball @ '' has dealt ''
       @ str_int attack_dealt @ '' damage to '' @ owner enemy @ [CHR 0x27] @ ''s '' @ name enemy"

definition missed_text :: "BattleBall \<Rightarrow> BattleBall \<Rightarrow> string" where
  "missed_text current_ball other =
     owner current_ball @ [CHR 0x27] @ ''s '' @ name current_ball @ '' missed ''
       @ owner other @ [CHR 0x27] @ ''s '' @ name other"

definition turn_line :: "int \<Rightarrow> string \<Rightarrow> string" where
  "turn_line t text = ''Turn '' @ str_int t @ '': '' @ text"

text \<open>
  \<^verbatim>\<open>attack(current_ball, enemy_balls)\<close>: returns the text and the roster after the
  mutation of the chosen enemy. \<^verbatim>\<open>random.choice\<close> raises IndexError on an empty list.
\<close>

definition attack_fn ::
  "BattleBall \<Rightarrow> BattleBall list \<Rightarrow> draw \<Rightarrow> error + (string \<times> BattleBall list)" where
  "attack_fn current_ball enemy_balls d =
     (let alive_balls = alive enemy_balls in
      if alive_balls = [] then Inl IndexError
      else
        let e = alive_balls ! (target d mod length alive_balls);
            enemy = enemy_balls ! e;
            attack_dealt = get_damage current_ball (multiplier d);
            enemy1 = enemy\<lparr>health := health enemy - attack_dealt\<rparr>;
            enemy2 = (if health enemy1 \<le> 0 then enemy1\<lparr>health := 0, dead := True\<rparr> else enemy1);
            gen_text = (if dead enemy2 then killed_text current_ball enemy2
                        else dealt_text current_ball attack_dealt enemy2)
        in Inr (gen_text, enemy_balls[e := enemy2]))"

text \<open>\<^verbatim>\<open>random_events()\<close>, with the value \<open>r\<close> of \<^verbatim>\<open>random.randint(0, 100)\<close>.\<close>

definition random_events :: "int \<Rightarrow> int" where
  "random_events r = (if r \<le> 30 then 1 else 0)"

text \<open>
  How a block of the loop body ends: it falls through to the next statement, or runs
  \<^verbatim>\<open>continue\<close>, or runs \<^verbatim>\<open>break\<close>.
\<close>

datatype flow = Fallthrough | Continue | Break

text \<open>The block \<^verbatim>\<open>if not p1_ball.dead: ...\<close> of the loop body.\<close>

definition p1_attacks ::
  "nat \<Rightarrow> nat \<Rightarrow> gen_state \<Rightarrow> draw list \<Rightarrow> error + (flow \<times> gen_state \<times> draw list)" where
  "p1_attacks i j s ds =
     (let p1_ball = p1_balls (battle s) ! i; p2_ball = p2_balls (battle s) ! j in
      if \<not> dead p1_ball then
        (case ds of
           [] \<Rightarrow> Inl OutOfEntropy
         | d # ds' \<Rightarrow>
             let t = turn s + 1 in
             if random_events (miss_roll d) = 1 then
               Inr (Continue,
                    s\<lparr>turn := t, yielded := yielded s @ [turn_line t (missed_text p1_ball p2_ball)]\<rparr>,
                    ds')
             else
               (case attack_fn p1_ball (p2_balls (battle s)) d of
                  Inl e \<Rightarrow> Inl e
                | Inr (text, balls') \<Rightarrow>
                    let s' = s\<lparr>battle := (battle s)\<lparr>p2_balls := balls'\<rparr>, turn := t,
                               yielded := yielded s @ [turn_line t text]\<rparr>
                    in if list_all dead balls' then Inr (Break, s', ds')
                       else Inr (Fallthrough, s', ds')))
      else Inr (Fallthrough, s, ds))"

text \<open>The block \<^verbatim>\<open>if not p2_ball.dead: ...\<close> of the loop body.\<close>

definition p2_attacks ::
  "nat \<Rightarrow> nat \<Rightarrow> gen_state \<Rightarrow> draw list \<Rightarrow> error + (flow \<times> gen_state \<times> draw list)" where
  "p2_attacks i j s ds =
     (let p1_ball = p1_balls (battle s) ! i; p2_ball = p2_balls (battle s) ! j in
      if \<not> dead p2_ball then
        (case ds of
           [] \<Rightarrow> Inl OutOfEntropy
         | d # ds' \<Rightarrow>
             let t = turn s + 1 in
             if random_events (miss_roll d) = 1 then
               Inr (Continue,
                    s\<lparr>turn := t, yielded := yielded s @ [turn_line t (missed_text p2_ball p1_ball)]\<rparr>,
                    ds')
             else
               (case attack_fn p2_ball (p1_balls (battle s)) d of
                  Inl e \<Rightarrow> Inl e
                | Inr (text, balls') \<Rightarrow>
                    let s' = s\<lparr>battle := (battle s)\<lparr>p1_balls := balls'\<rparr>, turn := t,
                               yielded := yielded s @ [turn_line t text]\<rparr>
                    in if list_all dead balls' then Inr (Break, s', ds')
                       else Inr (Fallthrough, s', ds')))
      else Inr (Fallthrough, s, ds))"

text \<open>One pass through the body of the \<^verbatim>\<open>for\<close> loop, for the pair of references \<open>(i, j)\<close>.\<close>

definition for_body ::
  "nat \<times> nat \<Rightarrow> gen_state \<Rightarrow> draw list \<Rightarrow> error + (flow \<times> gen_state \<times> draw list)" where
  "for_body p s ds =
     (case p1_attacks (fst p) (snd p) s ds of
        Inl e \<Rightarrow> Inl e
      | Inr (Fallthrough, s1, ds1) \<Rightarrow> p2_attacks (fst p) (snd p) s1 ds1
      | Inr r \<Rightarrow> Inr r)"

text \<open>The \<^verbatim>\<open>for\<close> loop over the zipped snapshots.\<close>

fun for_loop ::
  "(nat \<times> nat) list \<Rightarrow> gen_state \<Rightarrow> draw list \<Rightarrow> error + (gen_state \<times> draw list)" where
  "for_loop [] s ds = Inr (s, ds)"
| "for_loop (p # ps) s ds =
     (case for_body p s ds of
        Inl e \<Rightarrow> Inl e
      | Inr (Break, s', ds') \<Rightarrow> Inr (s', ds')
      | Inr (_, s', ds') \<Rightarrow> for_loop ps s' ds')"

text \<open>
  The \<^verbatim>\<open>while\<close> loop: each round takes fresh snapshots of the living balls and runs the
  \<^verbatim>\<open>for\<close> loop over their zip. A round consumes at least one draw, which is the
  termination argument on a finite supply.
\<close>

function while_loop :: "gen_state \<Rightarrow> draw list \<Rightarrow> error + (gen_state \<times> draw list)" where
  "while_loop s ds =
     (if list_ex (\<lambda>ball. \<not> dead ball) (p1_balls (battle s))
         \<and> list_ex (\<lambda>ball. \<not> dead ball) (p2_balls (battle s)) then
        (let alive_p1_balls = alive (p1_balls (battle s));
             alive_p2_balls = alive (p2_balls (battle s))
         in case for_loop (zip alive_p1_balls alive_p2_balls) s ds of
              Inl e \<Rightarrow> Inl e
            | Inr (s', ds') \<Rightarrow> while_loop s' ds')
      else Inr (s, ds))"
  by pat_completeness auto

termination
proof (relation "measure (\<lambda>(s, ds). length ds)")
  show "wf (measure (\<lambda>(s, ds). length ds))" by simp
next
  fix s :: gen_state and ds :: "draw list" and a1 a2 r s' ds'
  assume c: "list_ex (\<lambda>ball. \<not> dead ball) (p1_balls (battle s))
            \<and> list_ex (\<lambda>ball. \<not> dead ball) (p2_balls (battle s))"
    and a: "a1 = alive (p1_balls (battle s))" "a2 = alive (p2_balls (battle s))"
    and f: "for_loop (zip a1 a2) s ds = Inr r" and r: "(s', ds') = r"
  have p1: "length ys \<le> length xs \<and> (\<not> dead (p1_balls (battle t) ! i) \<longrightarrow> length ys < length xs)"
    if "p1_attacks i j t xs = Inr (fl, t', ys)" for i j t xs fl t' ys
    using that
    by (auto simp: p1_attacks_def Let_def split: if_splits list.splits sum.splits prod.splits)
  have p2: "length ys \<le> length xs"
    if "p2_attacks i j t xs = Inr (fl, t', ys)" for i j t xs fl t' ys
    using that
    by (auto simp: p2_attacks_def Let_def split: if_splits list.splits sum.splits prod.splits)
  have body: "length ys \<le> length xs
      \<and> (\<not> dead (p1_balls (battle t) ! fst p) \<longrightarrow> length ys < length xs)"
    if "for_body p t xs = Inr (fl, t', ys)" for p t xs fl t' ys
  proof -
    from that obtain f1 t1 xs1 where 1: "p1_attacks (fst p) (snd p) t xs = Inr (f1, t1, xs1)"
      and 2: "f1 = Fallthrough \<longrightarrow> p2_attacks (fst p) (snd p) t1 xs1 = Inr (fl, t', ys)"
      and 3: "f1 \<noteq> Fallthrough \<longrightarrow> ys = xs1"
      by (auto simp: for_body_def split: sum.splits flow.splits)
    have "length ys \<le> length xs1" using 2 3 p2 by (cases "f1 = Fallthrough") auto
    then show ?thesis using p1 [OF 1] by auto
  qed
  have loop: "length ys \<le> length xs" if "for_loop ps t xs = Inr (t', ys)" for ps t xs t' ys
    using that
  proof (induction ps arbitrary: t xs)
    case Nil
    then show ?case by simp
  next
    case (Cons p ps)
    from Cons.prems obtain fl t1 xs1 where 1: "for_body p t xs = Inr (fl, t1, xs1)"
      and 2: "fl = Break \<longrightarrow> ys = xs1"
      and 3: "fl \<noteq> Break \<longrightarrow> for_loop ps t1 xs1 = Inr (t', ys)"
      by (auto split: sum.splits flow.splits)
    have "length ys \<le> length xs1" using 2 3 Cons.IH by (cases "fl = Break") auto
    then show ?case using body [OF 1] by simp
  qed
  have ne: "alive balls \<noteq> []" if "list_ex (\<lambda>ball. \<not> dead ball) balls" for balls
    using that by (fastforce simp: list_ex_iff alive_def filter_empty_conv in_set_conv_nth)
  from c a obtain i ia j ja where z: "a1 = i # ia" "a2 = j # ja"
    using ne [of "p1_balls (battle s)"] ne [of "p2_balls (battle s)"]
    by (auto simp: neq_Nil_conv)
  have "i \<in> set (alive (p1_balls (battle s)))" using z a by simp
  then have al: "\<not> dead (p1_balls (battle s) ! i)" by (simp add: alive_def)
  from f r z obtain fl t1 xs1 where 1: "for_body (i, j) s ds = Inr (fl, t1, xs1)"
    and 2: "fl = Break \<longrightarrow> ds' = xs1"
    and 3: "fl \<noteq> Break \<longrightarrow> for_loop (zip ia ja) t1 xs1 = Inr (s', ds')"
    by (auto split: sum.splits flow.splits)
  have "length ds' \<le> length xs1" using 2 3 loop by (cases "fl = Break") auto
  moreover have "length xs1 < length ds" using body [OF 1] al by simp
  ultimately show "((s', ds'), (s, ds)) \<in> measure (\<lambda>(s, ds). length ds)" by simp
qed

declare while_loop.simps [simp del]

definition stalemate_text :: string where
  "stalemate_text = ''Everyone stared at each other, resulting in nobody winning.''"

text \<open>
  \<^verbatim>\<open>gen_battle(battle)\<close>, run to exhaustion: the yielded lines, the battle object as the
  generator leaves it, and the draws left. On the stalemate path the generator returns
  before it writes \<^verbatim>\<open>battle.winner\<close> or \<^verbatim>\<open>battle.turns\<close>. \<^verbatim>\<open>battle.p2_balls[0]\<close> and
  \<^verbatim>\<open>battle.p1_balls[0]\<close> raise IndexError on an empty roster.
\<close>

definition gen_battle ::
  "BattleInstance \<Rightarrow> draw list \<Rightarrow> error + (string list \<times> BattleInstance \<times> draw list)" where
  "gen_battle b ds =
     (if list_all (\<lambda>ball. attack ball \<le> 0) (p1_balls b @ p2_balls b) then
        Inr ([stalemate_text], b, ds)
      else
        (case while_loop \<lparr>battle = b, turn = 0, yielded = []\<rparr> ds of
           Inl e \<Rightarrow> Inl e
         | Inr (s, ds') \<Rightarrow>
             (case
                (if list_all dead (p1_balls (battle s)) then
                   (case p2_balls (battle s) of
                      [] \<Rightarrow> Inl IndexError
                    | ball # _ \<Rightarrow> Inr ((battle s)\<lparr>winner := owner ball\<rparr>))
                 else if list_all dead (p2_balls (battle s)) then
                   (case p1_balls (battle s) of
                      [] \<Rightarrow> Inl IndexError
                    | ball # _ \<Rightarrow> Inr ((battle s)\<lparr>winner := owner ball\<rparr>))
                 else Inr (battle s))
              of
                Inl e \<Rightarrow> Inl e
              | Inr b' \<Rightarrow> Inr (yielded s, b'\<lparr>turns := turn s\<rparr>, ds'))))"

text \<open>The constructor \<^verbatim>\<open>BattleInstance(p1_balls=..., p2_balls=...)\<close> with its defaults.\<close>

definition new_BattleInstance :: "BattleBall list \<Rightarrow> BattleBall list \<Rightarrow> BattleInstance" where
  "new_BattleInstance balls1 balls2 =
     \<lparr>p1_balls = balls1, p2_balls = balls2, winner = [], turns = 0\<rparr>"

text \<open>
  The balls that \<^verbatim>\<open>simulate_tournament_battle\<close> receives: objects with the attributes
  \<^verbatim>\<open>country\<close>, \<^verbatim>\<open>health\<close>, \<^verbatim>\<open>attack\<close> and \<^verbatim>\<open>emoji\<close>.
\<close>

record TournamentBall =
  country :: string
  ball_health :: int
  ball_attack :: int
  ball_emoji :: string

text \<open>The dictionary that \<^verbatim>\<open>simulate_tournament_battle\<close> returns.\<close>

record battle_result =
  result_winner :: string
  result_turns :: int
  battle_log :: "string list"

definition to_battle_ball :: "string \<Rightarrow> TournamentBall \<Rightarrow> BattleBall" where
  "to_battle_ball player_name ball =
     \<lparr>name = country ball, owner = player_name, health = ball_health ball,
      attack = ball_attack ball, emoji = ball_emoji ball, dead = False\<rparr>"

definition simulate_tournament_battle ::
  "TournamentBall list \<Rightarrow> TournamentBall list \<Rightarrow> string \<Rightarrow> string \<Rightarrow> draw list
     \<Rightarrow> error + (battle_result \<times> draw list)" where
  "simulate_tournament_battle player1_balls player2_balls player1_name player2_name ds =
     (let p1_battle_balls = map (to_battle_ball player1_name) player1_balls;
          p2_battle_balls = map (to_battle_ball player2_name) player2_balls;
          b = new_BattleInstance p1_battle_balls p2_battle_balls
      in case gen_battle b ds of
           Inl e \<Rightarrow> Inl e
         | Inr (lines, b', ds') \<Rightarrow>
             Inr (\<lparr>result_winner = winner b', result_turns = turns b', battle_log = lines\<rparr>, ds'))"

section \<open>Notions used in the statements\<close>

text \<open>What \<^verbatim>\<open>attack\<close> does to the enemy that it has chosen.\<close>

definition hit_ball :: "BattleBall \<Rightarrow> int \<Rightarrow> BattleBall" where
  "hit_ball enemy attack_dealt =
     (if health enemy - attack_dealt \<le> 0 then enemy\<lparr>health := 0, dead := True\<rparr>
      else enemy\<lparr>health := health enemy - attack_dealt\<rparr>)"

text \<open>
  The texts of the three kinds of events, and a log whose \<open>k\<close>-th line (from 0) is the
  line of turn \<open>k + 1\<close> for one such event.
\<close>

definition event_text :: "string \<Rightarrow> bool" where
  "event_text msg \<longleftrightarrow>
     (\<exists>a b. msg = missed_text a b) \<or> (\<exists>a b. msg = killed_text a b)
       \<or> (\<exists>a n b. msg = dealt_text a n b)"

definition numbered :: "string list \<Rightarrow> bool" where
  "numbered lines \<longleftrightarrow>
     (\<forall>k < length lines. \<exists>msg. event_text msg \<and> lines ! k = turn_line (int k + 1) msg)"

text \<open>The invariant of the turn counter, the log and the supply of draws.\<close>

definition log_inv :: "nat \<Rightarrow> gen_state \<Rightarrow> draw list \<Rightarrow> bool" where
  "log_inv n s ds \<longleftrightarrow>
     turn s = int (length (yielded s)) \<and> numbered (yielded s) \<and> length (yielded s) + length ds = n"

text \<open>
  The values that the random generator hands out during one attack attempt: the miss roll,
  and, when the attempt is not a miss, the chosen target and the multiplier.
\<close>

definition consumed :: "draw \<Rightarrow> int \<times> (nat \<times> rat) option" where
  "consumed d =
     (miss_roll d, if random_events (miss_roll d) = 1 then None else Some (target d, multiplier d))"






text \<open>
  Every ball keeps an attack and a health that are not negative, and a health not above the
  health it has in \<open>b\<close>; no multiplier left in the supply is negative.
\<close>

definition health_inv :: "BattleInstance \<Rightarrow> gen_state \<Rightarrow> draw list \<Rightarrow> bool" where
  "health_inv b s ds \<longleftrightarrow>
     length (p1_balls (battle s)) = length (p1_balls b)
     \<and> length (p2_balls (battle s)) = length (p2_balls b)
     \<and> (\<forall>k < length (p1_balls b).
          0 \<le> health (p1_balls (battle s) ! k)
          \<and> health (p1_balls (battle s) ! k) \<le> health (p1_balls b ! k)
          \<and> 0 \<le> attack (p1_balls (battle s) ! k))
     \<and> (\<forall>k < length (p2_balls b).
          0 \<le> health (p2_balls (battle s) ! k)
          \<and> health (p2_balls (battle s) ! k) \<le> health (p2_balls b ! k)
          \<and> 0 \<le> attack (p2_balls (battle s) ! k))
     \<and> (\<forall>d \<in> set ds. 0 \<le> multiplier d)"

subsection \<open>Example data\<close>

text \<open>
  A fights B: A misses, A deals 50, B deals \<open>int(20 * 0.9) = 18\<close>, A deals
  \<open>int(50 * 1.2) = 60\<close> and kills B.
\<close>

definition example_battle :: BattleInstance where
  "example_battle = new_BattleInstance
     [\<lparr>name = ''A'', owner = ''P1'', health = 100, attack = 50, emoji = [], dead = False\<rparr>]
     [\<lparr>name = ''B'', owner = ''P2'', health = 60, attack = 20, emoji = [], dead = False\<rparr>]"

definition example_draws :: "draw list" where
  "example_draws =
     [\<lparr>miss_roll = 10, target = 0, multiplier = 1\<rparr>,
      \<lparr>miss_roll = 50, target = 0, multiplier = 1\<rparr>,
      \<lparr>miss_roll = 40, target = 0, multiplier = 9 / 10\<rparr>,
      \<lparr>miss_roll = 100, target = 0, multiplier = 6 / 5\<rparr>]"

definition example_lines :: "string list" where
  "example_lines =
     [''Turn 1: P1's A missed P2's B'',
      ''Turn 2: P1's A has dealt 50 damage to P2's B'',
      ''Turn 3: P2's B has dealt 18 damage to P1's A'',
      ''Turn 4: P1's A has killed P2's B'']"

definition example_final :: BattleInstance where
  "example_final =
     \<lparr>p1_balls = [\<lparr>name = ''A'', owner = ''P1'', health = 82, attack = 50, emoji = [], dead = False\<rparr>],
      p2_balls = [\<lparr>name = ''B'', owner = ''P2'', health = 0, attack = 20, emoji = [], dead = True\<rparr>],
      winner = ''P1'', turns = 4\<rparr>"

definition example_result :: battle_result where
  "example_result = \<lparr>result_winner = ''P1'', result_turns = 4, battle_log = example_lines\<rparr>"

text \<open>
  Another supply, which differs only in values that are never asked for: its first attempt
  is a miss as well, so neither its target nor its multiplier is drawn.
\<close>

definition example_other_draws :: "draw list" where
  "example_other_draws =
     [\<lparr>miss_roll = 10, target = 7, multiplier = 0\<rparr>,
      \<lparr>miss_roll = 50, target = 0, multiplier = 1\<rparr>,
      \<lparr>miss_roll = 40, target = 0, multiplier = 9 / 10\<rparr>,
      \<lparr>miss_roll = 100, target = 0, multiplier = 6 / 5\<rparr>]"



section \<open>How the blocks and the loops run\<close>

text \<open>Every block consumes at most one draw, and exactly one when its attacker is alive.\<close>

lemma p1_attacks_draws:
  assumes "p1_attacks i j s ds = Inr (f, s', ds')"
  shows "if dead (p1_balls (battle s) ! i) then ds' = ds else (\<exists>d. ds = d # ds')"
  using assms
  by (auto simp: p1_attacks_def Let_def split: if_splits list.splits sum.splits prod.splits)

lemma p2_attacks_draws:
  assumes "p2_attacks i j s ds = Inr (f, s', ds')"
  shows "if dead (p2_balls (battle s) ! j) then ds' = ds else (\<exists>d. ds = d # ds')"
  using assms
  by (auto simp: p2_attacks_def Let_def split: if_splits list.splits sum.splits prod.splits)

lemma for_body_draws:
  assumes "for_body p s ds = Inr (f, s', ds')"
  shows "length ds' \<le> length ds"
    and "\<not> dead (p1_balls (battle s) ! fst p) \<Longrightarrow> length ds' < length ds"
proof -
  obtain f1 s1 ds1 where 1: "p1_attacks (fst p) (snd p) s ds = Inr (f1, s1, ds1)"
    using assms by (auto simp: for_body_def split: sum.splits)
  have a: "length ds1 \<le> length ds"
    and b: "\<not> dead (p1_balls (battle s) ! fst p) \<Longrightarrow> length ds1 < length ds"
    using p1_attacks_draws [OF 1] by (auto split: if_splits)
  have c: "length ds' \<le> length ds1"
  proof (cases f1)
    case Fallthrough
    then have "p2_attacks (fst p) (snd p) s1 ds1 = Inr (f, s', ds')"
      using assms 1 by (simp add: for_body_def)
    from p2_attacks_draws [OF this] show ?thesis by (auto split: if_splits)
  qed (use assms 1 in \<open>auto simp: for_body_def\<close>)
  show "length ds' \<le> length ds" using a c by simp
  show "\<not> dead (p1_balls (battle s) ! fst p) \<Longrightarrow> length ds' < length ds" using b c by simp
qed

lemma for_loop_draws_le:
  "for_loop ps s ds = Inr (s', ds') \<Longrightarrow> length ds' \<le> length ds"
proof (induction ps arbitrary: s ds)
  case Nil
  then show ?case by simp
next
  case (Cons p ps)
  from Cons.prems obtain f s1 ds1 where 1: "for_body p s ds = Inr (f, s1, ds1)"
    by (auto split: sum.splits)
  have le: "length ds1 \<le> length ds" by (rule for_body_draws(1) [OF 1])
  show ?case
  proof (cases "f = Break")
    case True
    with Cons.prems 1 le show ?thesis by simp
  next
    case False
    with Cons.prems 1 have "for_loop ps s1 ds1 = Inr (s', ds')"
      by (cases f) simp_all
    from Cons.IH [OF this] le show ?thesis by simp
  qed
qed

lemma for_loop_draws_less:
  assumes "for_loop (p # ps) s ds = Inr (s', ds')"
    and "\<not> dead (p1_balls (battle s) ! fst p)"
  shows "length ds' < length ds"
proof -
  from assms(1) obtain f s1 ds1 where 1: "for_body p s ds = Inr (f, s1, ds1)"
    by (auto split: sum.splits)
  have less: "length ds1 < length ds" by (rule for_body_draws(2) [OF 1 assms(2)])
  show ?thesis
  proof (cases "f = Break")
    case True
    with assms(1) 1 less show ?thesis by simp
  next
    case False
    with assms(1) 1 have "for_loop ps s1 ds1 = Inr (s', ds')"
      by (cases f) simp_all
    from for_loop_draws_le [OF this] less show ?thesis by simp
  qed
qed

lemma alive_iff: "i \<in> set (alive balls) \<longleftrightarrow> i < length balls \<and> \<not> dead (balls ! i)"
  by (auto simp: alive_def)

lemma alive_Nil_iff: "alive balls = [] \<longleftrightarrow> list_all dead balls"
  by (auto simp: alive_def filter_empty_conv list_all_iff in_set_conv_nth Ball_def)

lemma list_ex_alive: "list_ex (\<lambda>ball. \<not> dead ball) balls \<longleftrightarrow> alive balls \<noteq> []"
  by (auto simp: alive_Nil_iff list_all_iff list_ex_iff)

lemma round_draws_less:
  assumes "list_ex (\<lambda>ball. \<not> dead ball) (p1_balls (battle s))"
    and "list_ex (\<lambda>ball. \<not> dead ball) (p2_balls (battle s))"
    and "for_loop (zip (alive (p1_balls (battle s))) (alive (p2_balls (battle s)))) s ds
           = Inr (s', ds')"
  shows "length ds' < length ds"
proof -
  from assms(1,2) obtain i ia j ja
    where a: "alive (p1_balls (battle s)) = i # ia" "alive (p2_balls (battle s)) = j # ja"
    by (auto simp: list_ex_alive neq_Nil_conv)
  have "i \<in> set (alive (p1_balls (battle s)))" using a by simp
  then have "\<not> dead (p1_balls (battle s) ! i)" by (simp add: alive_iff)
  with for_loop_draws_less [of "(i, j)" "zip ia ja" s ds s' ds'] assms(3) a
  show ?thesis by simp
qed

lemma alive_nth_valid:
  assumes "alive balls \<noteq> []"
  shows "alive balls ! (k mod length (alive balls)) < length balls"
    and "\<not> dead (balls ! (alive balls ! (k mod length (alive balls))))"
proof -
  have "alive balls ! (k mod length (alive balls)) \<in> set (alive balls)"
    using assms by simp
  then show "alive balls ! (k mod length (alive balls)) < length balls"
    and "\<not> dead (balls ! (alive balls ! (k mod length (alive balls))))"
    by (simp_all add: alive_iff)
qed

lemma attack_fn_Inr:
  assumes "attack_fn a balls d = Inr (text, balls')"
  obtains e where "e < length balls" "\<not> dead (balls ! e)"
    "e = alive balls ! (target d mod length (alive balls))"
    "balls' = balls[e := hit_ball (balls ! e) (get_damage a (multiplier d))]"
    "text = (if dead (balls' ! e) then killed_text a (balls' ! e)
             else dealt_text a (get_damage a (multiplier d)) (balls' ! e))"
proof -
  have ne: "alive balls \<noteq> []"
    using assms by (auto simp: attack_fn_def Let_def split: if_splits)
  let ?e = "alive balls ! (target d mod length (alive balls))"
  have 1: "?e < length balls" and 2: "\<not> dead (balls ! ?e)"
    using alive_nth_valid [OF ne] by auto
  have 3: "balls' = balls[?e := hit_ball (balls ! ?e) (get_damage a (multiplier d))]"
    using assms ne by (auto simp: attack_fn_def Let_def hit_ball_def)
  have 4: "text = (if dead (balls' ! ?e) then killed_text a (balls' ! ?e)
             else dealt_text a (get_damage a (multiplier d)) (balls' ! ?e))"
    using assms ne 1 unfolding 3 by (auto simp: attack_fn_def Let_def hit_ball_def)
  show ?thesis using that [OF 1 2 refl 3 4] .
qed

lemma attack_fn_Inl: "attack_fn a balls d = Inl e \<longleftrightarrow> e = IndexError \<and> list_all dead balls"
  by (auto simp: attack_fn_def Let_def alive_Nil_iff)

lemma p1_attacks_Inr:
  assumes "p1_attacks i j s ds = Inr (f, s', ds')"
  obtains (dead) "dead (p1_balls (battle s) ! i)" "f = Fallthrough" "s' = s" "ds' = ds"
  | (miss) d where "\<not> dead (p1_balls (battle s) ! i)" "ds = d # ds'" "miss_roll d \<le> 30"
      "f = Continue"
      "s' = s\<lparr>turn := turn s + 1,
              yielded := yielded s @ [turn_line (turn s + 1)
                 (missed_text (p1_balls (battle s) ! i) (p2_balls (battle s) ! j))]\<rparr>"
  | (hit) d msg balls' where "\<not> dead (p1_balls (battle s) ! i)" "ds = d # ds'"
      "\<not> miss_roll d \<le> 30"
      "attack_fn (p1_balls (battle s) ! i) (p2_balls (battle s)) d = Inr (msg, balls')"
      "f = (if list_all dead balls' then Break else Fallthrough)"
      "s' = s\<lparr>battle := (battle s)\<lparr>p2_balls := balls'\<rparr>, turn := turn s + 1,
              yielded := yielded s @ [turn_line (turn s + 1) msg]\<rparr>"
  using assms
  by (auto simp: p1_attacks_def Let_def random_events_def
           split: if_splits list.splits sum.splits prod.splits)

lemma p2_attacks_Inr:
  assumes "p2_attacks i j s ds = Inr (f, s', ds')"
  obtains (dead) "dead (p2_balls (battle s) ! j)" "f = Fallthrough" "s' = s" "ds' = ds"
  | (miss) d where "\<not> dead (p2_balls (battle s) ! j)" "ds = d # ds'" "miss_roll d \<le> 30"
      "f = Continue"
      "s' = s\<lparr>turn := turn s + 1,
              yielded := yielded s @ [turn_line (turn s + 1)
                 (missed_text (p2_balls (battle s) ! j) (p1_balls (battle s) ! i))]\<rparr>"
  | (hit) d msg balls' where "\<not> dead (p2_balls (battle s) ! j)" "ds = d # ds'"
      "\<not> miss_roll d \<le> 30"
      "attack_fn (p2_balls (battle s) ! j) (p1_balls (battle s)) d = Inr (msg, balls')"
      "f = (if list_all dead balls' then Break else Fallthrough)"
      "s' = s\<lparr>battle := (battle s)\<lparr>p1_balls := balls'\<rparr>, turn := turn s + 1,
              yielded := yielded s @ [turn_line (turn s + 1) msg]\<rparr>"
  using assms
  by (auto simp: p2_attacks_def Let_def random_events_def
           split: if_splits list.splits sum.splits prod.splits)

lemma attack_fn_length: "attack_fn a balls d = Inr (msg, balls') \<Longrightarrow> length balls' = length balls"
  by (erule attack_fn_Inr) simp

lemma p1_attacks_length:
  assumes "p1_attacks i j s ds = Inr (f, s', ds')"
  shows "length (p1_balls (battle s')) = length (p1_balls (battle s))
       \<and> length (p2_balls (battle s')) = length (p2_balls (battle s))"
  using assms by (cases rule: p1_attacks_Inr) (auto dest: attack_fn_length)

lemma p2_attacks_length:
  assumes "p2_attacks i j s ds = Inr (f, s', ds')"
  shows "length (p1_balls (battle s')) = length (p1_balls (battle s))
       \<and> length (p2_balls (battle s')) = length (p2_balls (battle s))"
  using assms by (cases rule: p2_attacks_Inr) (auto dest: attack_fn_length)

lemma for_body_Inr:
  assumes "for_body (i, j) s ds = Inr (f, s', ds')"
  obtains (first) "p1_attacks i j s ds = Inr (f, s', ds')" "f \<noteq> Fallthrough"
  | (both) s1 ds1 where "p1_attacks i j s ds = Inr (Fallthrough, s1, ds1)"
      "p2_attacks i j s1 ds1 = Inr (f, s', ds')"
  using assms by (auto simp: for_body_def split: sum.splits flow.splits)

text \<open>An invariant of the two blocks is an invariant of the loops.\<close>

lemma for_body_invariant:
  assumes run: "for_body (i, j) s ds = Inr (f, s', ds')"
    and P: "P s ds"
    and idx: "i < length (p1_balls (battle s))" "j < length (p2_balls (battle s))"
    and step1: "\<And>i j s ds f s' ds'. \<lbrakk>P s ds; i < length (p1_balls (battle s));
        j < length (p2_balls (battle s)); p1_attacks i j s ds = Inr (f, s', ds')\<rbrakk> \<Longrightarrow> P s' ds'"
    and step2: "\<And>i j s ds f s' ds'. \<lbrakk>P s ds; i < length (p1_balls (battle s));
        j < length (p2_balls (battle s)); p2_attacks i j s ds = Inr (f, s', ds')\<rbrakk> \<Longrightarrow> P s' ds'"
  shows "P s' ds'"
    and "length (p1_balls (battle s')) = length (p1_balls (battle s))"
    and "length (p2_balls (battle s')) = length (p2_balls (battle s))"
proof -
  have "P s' ds' \<and> length (p1_balls (battle s')) = length (p1_balls (battle s))
      \<and> length (p2_balls (battle s')) = length (p2_balls (battle s))"
    using run
  proof (cases rule: for_body_Inr)
    case first
    then show ?thesis using step1 [OF P idx] p1_attacks_length by blast
  next
    case (both s1 ds1)
    have 1: "P s1 ds1" using step1 [OF P idx both(1)] .
    have l: "length (p1_balls (battle s1)) = length (p1_balls (battle s))"
        "length (p2_balls (battle s1)) = length (p2_balls (battle s))"
      using p1_attacks_length [OF both(1)] by auto
    have "P s' ds'" using step2 [OF 1 _ _ both(2)] idx l by simp
    then show ?thesis using p2_attacks_length [OF both(2)] l by simp
  qed
  then show "P s' ds'"
    and "length (p1_balls (battle s')) = length (p1_balls (battle s))"
    and "length (p2_balls (battle s')) = length (p2_balls (battle s))"
    by simp_all
qed

lemma for_loop_Cons_Inr:
  assumes "for_loop (p # ps) s ds = Inr (s', ds')"
  obtains (break) "for_body p s ds = Inr (Break, s', ds')"
  | (more) f s1 ds1 where "for_body p s ds = Inr (f, s1, ds1)" "f \<noteq> Break"
      "for_loop ps s1 ds1 = Inr (s', ds')"
  using assms by (auto split: sum.splits flow.splits)

lemma for_loop_invariant:
  assumes run: "for_loop ps s ds = Inr (s', ds')"
    and P: "P s ds"
    and idx: "\<forall>(i, j) \<in> set ps. i < length (p1_balls (battle s)) \<and> j < length (p2_balls (battle s))"
    and step1: "\<And>i j s ds f s' ds'. \<lbrakk>P s ds; i < length (p1_balls (battle s));
        j < length (p2_balls (battle s)); p1_attacks i j s ds = Inr (f, s', ds')\<rbrakk> \<Longrightarrow> P s' ds'"
    and step2: "\<And>i j s ds f s' ds'. \<lbrakk>P s ds; i < length (p1_balls (battle s));
        j < length (p2_balls (battle s)); p2_attacks i j s ds = Inr (f, s', ds')\<rbrakk> \<Longrightarrow> P s' ds'"
  shows "P s' ds'"
  using run P idx
proof (induction ps arbitrary: s ds)
  case Nil
  then show ?case by simp
next
  case (Cons p ps)
  obtain i j where p: "p = (i, j)" by (cases p)
  have idx: "i < length (p1_balls (battle s))" "j < length (p2_balls (battle s))"
    using Cons.prems(3) p by auto
  from Cons.prems(1) show ?case
  proof (cases rule: for_loop_Cons_Inr)
    case break
    then have b: "for_body (i, j) s ds = Inr (Break, s', ds')" using p by simp
    show ?thesis
      by (rule for_body_invariant(1) [where P = P, OF b Cons.prems(2) idx])
        (rule step1, assumption+, rule step2, assumption+)
  next
    case (more f s1 ds1)
    have b: "for_body (i, j) s ds = Inr (f, s1, ds1)" using more(1) p by simp
    have 1: "P s1 ds1"
      by (rule for_body_invariant(1) [where P = P, OF b Cons.prems(2) idx])
        (rule step1, assumption+, rule step2, assumption+)
    have l: "length (p1_balls (battle s1)) = length (p1_balls (battle s))"
        "length (p2_balls (battle s1)) = length (p2_balls (battle s))"
      using for_body_invariant(2,3) [where P = "\<lambda>_ _. True", OF b] idx by auto
    show ?thesis
      using Cons.IH [OF more(3) 1] Cons.prems(3) l by auto
  qed
qed

lemma zip_alive_valid:
  "\<forall>(i, j) \<in> set (zip (alive xs) (alive ys)). i < length xs \<and> j < length ys"
  by (auto elim!: in_set_zipE simp: alive_iff)

lemma while_loop_stop:
  assumes "list_all dead (p1_balls (battle s)) \<or> list_all dead (p2_balls (battle s))"
  shows "while_loop s ds = Inr (s, ds)"
  using assms by (auto simp: while_loop.simps [of s ds] list_ex_alive alive_Nil_iff)

lemma while_loop_round:
  assumes "\<not> list_all dead (p1_balls (battle s))" "\<not> list_all dead (p2_balls (battle s))"
  shows "while_loop s ds =
    (case for_loop (zip (alive (p1_balls (battle s))) (alive (p2_balls (battle s)))) s ds of
       Inl e \<Rightarrow> Inl e | Inr (s', ds') \<Rightarrow> while_loop s' ds')"
  using assms by (simp add: while_loop.simps [of s ds] list_ex_alive alive_Nil_iff)

lemma while_cond_iff:
  "list_ex (\<lambda>ball. \<not> dead ball) (p1_balls (battle s))
     \<and> list_ex (\<lambda>ball. \<not> dead ball) (p2_balls (battle s))
   \<longleftrightarrow> \<not> list_all dead (p1_balls (battle s)) \<and> \<not> list_all dead (p2_balls (battle s))"
  by (simp add: list_ex_alive alive_Nil_iff)

lemma while_loop_invariant:
  assumes run: "while_loop s ds = Inr (s', ds')"
    and P: "P s ds"
    and step1: "\<And>i j s ds f s' ds'. \<lbrakk>P s ds; i < length (p1_balls (battle s));
        j < length (p2_balls (battle s)); p1_attacks i j s ds = Inr (f, s', ds')\<rbrakk> \<Longrightarrow> P s' ds'"
    and step2: "\<And>i j s ds f s' ds'. \<lbrakk>P s ds; i < length (p1_balls (battle s));
        j < length (p2_balls (battle s)); p2_attacks i j s ds = Inr (f, s', ds')\<rbrakk> \<Longrightarrow> P s' ds'"
  shows "P s' ds'"
  using run P
proof (induction s ds rule: while_loop.induct)
  case (1 s ds)
  show ?case
  proof (cases "list_ex (\<lambda>ball. \<not> dead ball) (p1_balls (battle s))
         \<and> list_ex (\<lambda>ball. \<not> dead ball) (p2_balls (battle s))")
    case False
    then have "while_loop s ds = Inr (s, ds)"
      by (intro while_loop_stop) (auto simp: while_cond_iff)
    then show ?thesis using "1.prems" by simp
  next
    case True
    let ?ps = "zip (alive (p1_balls (battle s))) (alive (p2_balls (battle s)))"
    from True have "\<not> list_all dead (p1_balls (battle s))" "\<not> list_all dead (p2_balls (battle s))"
      by (simp_all add: while_cond_iff)
    from while_loop_round [OF this, of ds] "1.prems"(1) obtain s1 ds1
      where f: "for_loop ?ps s ds = Inr (s1, ds1)" and w: "while_loop s1 ds1 = Inr (s', ds')"
      by (auto split: sum.splits)
    have "P s1 ds1"
      by (rule for_loop_invariant [where P = P, OF f "1.prems"(2) zip_alive_valid])
        (rule step1, assumption+, rule step2, assumption+)
    then show ?thesis
      using "1.IH" [OF True refl refl f refl w] by simp
  qed
qed

lemma while_loop_exit:
  assumes "while_loop s ds = Inr (s', ds')"
  shows "list_all dead (p1_balls (battle s')) \<or> list_all dead (p2_balls (battle s'))"
  using assms
proof (induction s ds rule: while_loop.induct)
  case (1 s ds)
  show ?case
  proof (cases "list_ex (\<lambda>ball. \<not> dead ball) (p1_balls (battle s))
         \<and> list_ex (\<lambda>ball. \<not> dead ball) (p2_balls (battle s))")
    case False
    then have d: "list_all dead (p1_balls (battle s)) \<or> list_all dead (p2_balls (battle s))"
      by (auto simp: while_cond_iff)
    from while_loop_stop [OF this, of ds] "1.prems" d show ?thesis by auto
  next
    case True
    let ?ps = "zip (alive (p1_balls (battle s))) (alive (p2_balls (battle s)))"
    from True have "\<not> list_all dead (p1_balls (battle s))" "\<not> list_all dead (p2_balls (battle s))"
      by (simp_all add: while_cond_iff)
    from while_loop_round [OF this, of ds] "1.prems"(1) obtain s1 ds1
      where f: "for_loop ?ps s ds = Inr (s1, ds1)" and w: "while_loop s1 ds1 = Inr (s', ds')"
      by (auto split: sum.splits)
    show ?thesis
      using "1.IH" [OF True refl refl f refl w] by simp
  qed
qed

section \<open>Stalemate\<close>

text \<open>
  C1. When every combatant of both rosters has \<open>attack \<le> 0\<close>, the generator yields the
  single stalemate line and returns before the loop: no draw is consumed, no ball is
  touched, and the winner and the turn count keep the values of a fresh battle, the empty
  string and 0. \<^verbatim>\<open>simulate_tournament_battle\<close> returns exactly these.
\<close>

theorem stalemate_short_circuit:
  assumes "\<forall>ball \<in> set (balls1 @ balls2). attack ball \<le> 0"
  shows "gen_battle (new_BattleInstance balls1 balls2) ds
           = Inr ([stalemate_text],
                  \<lparr>p1_balls = balls1, p2_balls = balls2, winner = [], turns = 0\<rparr>, ds)
         \<and> (balls1 = map (to_battle_ball n1) bs1 \<and> balls2 = map (to_battle_ball n2) bs2 \<longrightarrow>
              simulate_tournament_battle bs1 bs2 n1 n2 ds
                = Inr (\<lparr>result_winner = [], result_turns = 0, battle_log = [stalemate_text]\<rparr>, ds))"
proof -
  have "list_all (\<lambda>ball. attack ball \<le> 0) (balls1 @ balls2)"
    using assms by (simp add: list_all_iff)
  then have g: "gen_battle (new_BattleInstance balls1 balls2) ds
      = Inr ([stalemate_text], new_BattleInstance balls1 balls2, ds)"
    by (simp add: gen_battle_def new_BattleInstance_def)
  then show ?thesis
    by (auto simp: simulate_tournament_battle_def new_BattleInstance_def)
qed

theorem stalemate_short_circuit_witness:
  "gen_battle (new_BattleInstance
      [\<lparr>name = ''a'', owner = ''P'', health = 10, attack = 0, emoji = [], dead = False\<rparr>]
      [\<lparr>name = ''b'', owner = ''Q'', health = 10, attack = - 3, emoji = [], dead = False\<rparr>]) []
    = Inr ([stalemate_text],
           \<lparr>p1_balls = [\<lparr>name = ''a'', owner = ''P'', health = 10, attack = 0, emoji = [], dead = False\<rparr>],
            p2_balls = [\<lparr>name = ''b'', owner = ''Q'', health = 10, attack = - 3, emoji = [], dead = False\<rparr>],
            winner = [], turns = 0\<rparr>, [])
   \<and> simulate_tournament_battle
        [\<lparr>country = ''a'', ball_health = 10, ball_attack = 0, ball_emoji = []\<rparr>]
        [\<lparr>country = ''b'', ball_health = 10, ball_attack = - 3, ball_emoji = []\<rparr>] ''P'' ''Q'' []
      = Inr (\<lparr>result_winner = [], result_turns = 0, battle_log = [stalemate_text]\<rparr>, [])"
  using stalemate_short_circuit
    [of "[\<lparr>name = ''a'', owner = ''P'', health = 10, attack = 0, emoji = [], dead = False\<rparr>]"
        "[\<lparr>name = ''b'', owner = ''Q'', health = 10, attack = - 3, emoji = [], dead = False\<rparr>]"
        "[]" "''P''" "[\<lparr>country = ''a'', ball_health = 10, ball_attack = 0, ball_emoji = []\<rparr>]"
        "''Q''" "[\<lparr>country = ''b'', ball_health = 10, ball_attack = - 3, ball_emoji = []\<rparr>]"]
  by (simp add: to_battle_ball_def)

section \<open>A battle run by hand\<close>

lemma example_run: "gen_battle example_battle example_draws = Inr (example_lines, example_final, [])"
  by code_simp

lemma example_not_stalemate:
  "\<not> list_all (\<lambda>ball. attack ball \<le> 0) (p1_balls example_battle @ p2_balls example_battle)"
  by code_simp

section \<open>The result of a battle that is fought\<close>

text \<open>What a successful run of \<^verbatim>\<open>gen_battle\<close> past the stalemate test returns.\<close>

lemma gen_battle_Inr:
  assumes "\<not> list_all (\<lambda>ball. attack ball \<le> 0) (p1_balls b @ p2_balls b)"
    and "gen_battle b ds = Inr (lines, b', ds')"
  obtains s where "while_loop \<lparr>battle = b, turn = 0, yielded = []\<rparr> ds = Inr (s, ds')"
    "lines = yielded s" "turns b' = turn s"
    "p1_balls b' = p1_balls (battle s)" "p2_balls b' = p2_balls (battle s)"
    "list_all dead (p1_balls (battle s)) \<Longrightarrow>
       p2_balls (battle s) \<noteq> [] \<and> winner b' = owner (hd (p2_balls (battle s)))"
    "\<not> list_all dead (p1_balls (battle s)) \<Longrightarrow> list_all dead (p2_balls (battle s)) \<Longrightarrow>
       p1_balls (battle s) \<noteq> [] \<and> winner b' = owner (hd (p1_balls (battle s)))"
    "\<not> list_all dead (p1_balls (battle s)) \<Longrightarrow> \<not> list_all dead (p2_balls (battle s)) \<Longrightarrow>
       winner b' = winner (battle s)"
  using assms
  by (auto simp: gen_battle_def split: sum.splits prod.splits if_splits list.splits)

text \<open>
  C2. After a battle that is not a stalemate, the winner is decided by testing side 1
  first: if every ball of \<open>p1_balls\<close> is dead the winner is the owner of the first ball
  of \<open>p2_balls\<close>, whatever the state of side 2; otherwise side 2 is fully dead and the
  winner is the owner of the first ball of \<open>p1_balls\<close>. One of the two sides is always
  fully dead when the loop has ended, and the roster that is indexed is not empty.
\<close>

theorem winner_determination:
  assumes "\<not> list_all (\<lambda>ball. attack ball \<le> 0) (p1_balls b @ p2_balls b)"
    and "gen_battle b ds = Inr (lines, b', ds')"
  shows "(list_all dead (p1_balls b') \<or> list_all dead (p2_balls b'))
       \<and> (list_all dead (p1_balls b') \<longrightarrow>
            p2_balls b' \<noteq> [] \<and> winner b' = owner (hd (p2_balls b')))
       \<and> (\<not> list_all dead (p1_balls b') \<longrightarrow>
            p1_balls b' \<noteq> [] \<and> winner b' = owner (hd (p1_balls b')))"
  using assms
proof (cases rule: gen_battle_Inr)
  case (1 s)
  have "list_all dead (p1_balls (battle s)) \<or> list_all dead (p2_balls (battle s))"
    by (rule while_loop_exit [OF 1(1)])
  then show ?thesis using 1 by auto
qed

theorem winner_determination_witness:
  "gen_battle example_battle example_draws = Inr (example_lines, example_final, [])
   \<and> list_all dead (p2_balls example_final)
   \<and> p1_balls example_final \<noteq> []
   \<and> winner example_final = owner (hd (p1_balls example_final))
   \<and> winner example_final = ''P1''"
proof -
  have "\<not> list_all dead (p1_balls example_final)" "list_all dead (p2_balls example_final)"
    "winner example_final = ''P1''"
    by (simp_all add: example_final_def)
  then show ?thesis
    using winner_determination [OF example_not_stalemate example_run] example_run by blast
qed

section \<open>No double knockout\<close>

text \<open>An attacker is alive and only the opposing roster changes, so some ball stays alive.\<close>

lemma some_alive_p1_attacks:
  assumes "p1_attacks i j s ds = Inr (f, s', ds')"
    and "i < length (p1_balls (battle s))"
    and "\<not> (list_all dead (p1_balls (battle s)) \<and> list_all dead (p2_balls (battle s)))"
  shows "\<not> (list_all dead (p1_balls (battle s')) \<and> list_all dead (p2_balls (battle s')))"
  using assms(1)
proof (cases rule: p1_attacks_Inr)
  case (hit d msg balls')
  then have "\<not> list_all dead (p1_balls (battle s'))"
    using assms(2) by (auto simp: list_all_length)
  then show ?thesis by simp
qed (use assms(3) in auto)

lemma some_alive_p2_attacks:
  assumes "p2_attacks i j s ds = Inr (f, s', ds')"
    and "j < length (p2_balls (battle s))"
    and "\<not> (list_all dead (p1_balls (battle s)) \<and> list_all dead (p2_balls (battle s)))"
  shows "\<not> (list_all dead (p1_balls (battle s')) \<and> list_all dead (p2_balls (battle s')))"
  using assms(1)
proof (cases rule: p2_attacks_Inr)
  case (hit d msg balls')
  then have "\<not> list_all dead (p2_balls (battle s'))"
    using assms(2) by (auto simp: list_all_length)
  then show ?thesis by simp
qed (use assms(3) in auto)

text \<open>
  C10. A battle between two non-empty rosters of living balls that is fought (not a
  stalemate) ends with exactly one side fully dead: both sides are never wiped out together.
\<close>

theorem no_double_knockout:
  assumes "p1_balls b \<noteq> []" and "p2_balls b \<noteq> []"
    and "\<forall>ball \<in> set (p1_balls b @ p2_balls b). \<not> dead ball"
    and "\<not> list_all (\<lambda>ball. attack ball \<le> 0) (p1_balls b @ p2_balls b)"
    and "gen_battle b ds = Inr (lines, b', ds')"
  shows "list_all dead (p1_balls b') \<noteq> list_all dead (p2_balls b')"
  using assms(4,5)
proof (cases rule: gen_battle_Inr)
  case (1 s)
  let ?P = "\<lambda>s (ds :: draw list).
    \<not> (list_all dead (p1_balls (battle s)) \<and> list_all dead (p2_balls (battle s)))"
  have init: "?P \<lparr>battle = b, turn = 0, yielded = []\<rparr> ds"
    using assms(1,3) by (cases "p1_balls b") auto
  have "?P s ds'"
    by (rule while_loop_invariant [where P = ?P, OF 1(1) init])
      (erule some_alive_p1_attacks, assumption+, erule some_alive_p2_attacks, assumption+)
  moreover have "list_all dead (p1_balls (battle s)) \<or> list_all dead (p2_balls (battle s))"
    by (rule while_loop_exit [OF 1(1)])
  ultimately show ?thesis using 1(4,5) by auto
qed

theorem no_double_knockout_witness:
  "gen_battle example_battle example_draws = Inr (example_lines, example_final, [])
   \<and> list_all dead (p1_balls example_final) \<noteq> list_all dead (p2_balls example_final)"
proof -
  have 1: "p1_balls example_battle \<noteq> []" and 2: "p2_balls example_battle \<noteq> []"
    by (simp_all add: example_battle_def new_BattleInstance_def)
  have 3: "\<forall>ball \<in> set (p1_balls example_battle @ p2_balls example_battle). \<not> dead ball"
    by (simp add: example_battle_def new_BattleInstance_def)
  show ?thesis
    using no_double_knockout [OF 1 2 3 example_not_stalemate example_run] example_run by blast
qed

section \<open>Turn counter and log\<close>

lemma numbered_snoc:
  assumes "numbered lines" and "event_text msg"
  shows "numbered (lines @ [turn_line (int (length lines) + 1) msg])"
  unfolding numbered_def
proof (intro allI impI)
  fix k assume "k < length (lines @ [turn_line (int (length lines) + 1) msg])"
  then consider "k < length lines" | "k = length lines" by fastforce
  then show "\<exists>m. event_text m
      \<and> (lines @ [turn_line (int (length lines) + 1) msg]) ! k = turn_line (int k + 1) m"
  proof cases
    case 1
    then show ?thesis using assms(1) by (simp add: numbered_def nth_append)
  next
    case 2
    then show ?thesis using assms(2) by (auto simp: nth_append)
  qed
qed

lemma missed_event_text: "event_text (missed_text a b)"
  unfolding event_text_def by blast

lemma killed_event_text: "event_text (killed_text a b)"
  unfolding event_text_def by blast

lemma dealt_event_text: "event_text (dealt_text a n b)"
  unfolding event_text_def by blast

lemma attack_fn_event_text: "attack_fn a balls d = Inr (msg, balls') \<Longrightarrow> event_text msg"
  by (erule attack_fn_Inr) (simp add: killed_event_text dealt_event_text)

lemma log_inv_p1_attacks:
  assumes "log_inv n s ds" and "p1_attacks i j s ds = Inr (f, s', ds')"
  shows "log_inv n s' ds'"
  using assms(2)
proof (cases rule: p1_attacks_Inr)
  case dead
  then show ?thesis using assms(1) by simp
next
  case (miss d)
  then show ?thesis using assms(1) numbered_snoc [OF _ missed_event_text, of "yielded s"]
    by (auto simp: log_inv_def)
next
  case (hit d msg balls')
  from hit(4) have "event_text msg" by (rule attack_fn_event_text)
  then show ?thesis using hit assms(1) numbered_snoc [of "yielded s" msg]
    by (auto simp: log_inv_def)
qed

lemma log_inv_p2_attacks:
  assumes "log_inv n s ds" and "p2_attacks i j s ds = Inr (f, s', ds')"
  shows "log_inv n s' ds'"
  using assms(2)
proof (cases rule: p2_attacks_Inr)
  case dead
  then show ?thesis using assms(1) by simp
next
  case (miss d)
  then show ?thesis using assms(1) numbered_snoc [OF _ missed_event_text, of "yielded s"]
    by (auto simp: log_inv_def)
next
  case (hit d msg balls')
  from hit(4) have "event_text msg" by (rule attack_fn_event_text)
  then show ?thesis using hit assms(1) numbered_snoc [of "yielded s" msg]
    by (auto simp: log_inv_def)
qed

text \<open>
  C7. After a battle that is fought, \<open>turns\<close> is the number of yielded lines; every line
  is a miss line or a damage or kill line, and the \<open>k\<close>-th line carries the turn number
  \<open>k + 1\<close>, so the lines are in the order of the events; each attack attempt consumed
  one draw, incremented the counter once and yielded one line.
\<close>

theorem turn_count_matches_log:
  assumes "\<not> list_all (\<lambda>ball. attack ball \<le> 0) (p1_balls b @ p2_balls b)"
    and "gen_battle b ds = Inr (lines, b', ds')"
  shows "turns b' = int (length lines) \<and> numbered lines \<and> length ds = length lines + length ds'"
  using assms
proof (cases rule: gen_battle_Inr)
  case (1 s)
  have init: "log_inv (length ds) \<lparr>battle = b, turn = 0, yielded = []\<rparr> ds"
    by (simp add: log_inv_def numbered_def)
  have "log_inv (length ds) s ds'"
    by (rule while_loop_invariant [where P = "log_inv (length ds)", OF 1(1) init])
      (erule log_inv_p1_attacks, assumption, erule log_inv_p2_attacks, assumption)
  then show ?thesis using 1(2,3) by (auto simp: log_inv_def)
qed

theorem turn_count_matches_log_witness:
  "gen_battle example_battle example_draws = Inr (example_lines, example_final, [])
   \<and> turns example_final = int (length example_lines)
   \<and> turns example_final = 4
   \<and> length example_draws = length example_lines + length ([] :: draw list)"
proof -
  have "turns example_final = 4" by (simp add: example_final_def)
  then show ?thesis
    using turn_count_matches_log [OF example_not_stalemate example_run] example_run by blast
qed

section \<open>The miss roll\<close>





section \<open>The damage roll\<close>




section \<open>Health\<close>

text \<open>
  C3. The health of a ball should never increase. It does when the attacker has a negative
  attack and the battle is not a stalemate: A (attack \<open>-10\<close>) hits B (health 100), the
  damage is \<open>-10\<close>, \<^verbatim>\<open>enemy.health -= attack_dealt\<close> raises B's health to 110, and the
  line reads "has dealt -10 damage". B then kills A, and B ends the battle with health 110.
\<close>

theorem negative_attack_raises_health:
  "gen_battle
     (new_BattleInstance
        [\<lparr>name = ''A'', owner = ''P1'', health = 100, attack = - 10, emoji = [], dead = False\<rparr>]
        [\<lparr>name = ''B'', owner = ''P2'', health = 100, attack = 200, emoji = [], dead = False\<rparr>])
     [\<lparr>miss_roll = 50, target = 0, multiplier = 1\<rparr>, \<lparr>miss_roll = 50, target = 0, multiplier = 1\<rparr>]
   = Inr ([''Turn 1: P1's A has dealt -10 damage to P2's B'', ''Turn 2: P2's B has killed P1's A''],
          \<lparr>p1_balls = [\<lparr>name = ''A'', owner = ''P1'', health = 0, attack = - 10, emoji = [], dead = True\<rparr>],
           p2_balls = [\<lparr>name = ''B'', owner = ''P2'', health = 110, attack = 200, emoji = [], dead = False\<rparr>],
           winner = ''P2'', turns = 2\<rparr>,
          [])"
  by code_simp

text \<open>
  What does hold: health never goes below 0 once it is not below 0, and it never increases
  as long as no attack and no multiplier is negative.
\<close>

lemma get_damage_nonneg: "0 \<le> attack a \<Longrightarrow> 0 \<le> u \<Longrightarrow> 0 \<le> get_damage a u"
  by (simp add: get_damage_def py_int_def)

lemma hit_ball_facts:
  assumes "0 \<le> health b" "0 \<le> dmg"
  shows "0 \<le> health (hit_ball b dmg)" "health (hit_ball b dmg) \<le> health b"
    "attack (hit_ball b dmg) = attack b"
  using assms by (auto simp: hit_ball_def)

lemma attack_fn_health:
  assumes "attack_fn a balls d = Inr (msg, balls')" and "0 \<le> attack a" and "0 \<le> multiplier d"
    and "k < length balls" and "0 \<le> health (balls ! k)"
  shows "0 \<le> health (balls' ! k) \<and> health (balls' ! k) \<le> health (balls ! k)
       \<and> attack (balls' ! k) = attack (balls ! k)"
  using assms(1)
proof (rule attack_fn_Inr)
  fix e
  assume e: "e < length balls"
    and b': "balls' = balls[e := hit_ball (balls ! e) (get_damage a (multiplier d))]"
  have dmg: "0 \<le> get_damage a (multiplier d)" by (rule get_damage_nonneg [OF assms(2,3)])
  show ?thesis
  proof (cases "k = e")
    case True
    then show ?thesis using hit_ball_facts [OF _ dmg, of "balls ! e"] assms(5) e b' by simp
  next
    case False
    then show ?thesis using assms(5) b' by simp
  qed
qed

lemma health_inv_p1_attacks:
  assumes "health_inv b s ds" and "i < length (p1_balls (battle s))"
    and "p1_attacks i j s ds = Inr (f, s', ds')"
  shows "health_inv b s' ds'"
  using assms(3)
proof (cases rule: p1_attacks_Inr)
  case dead
  then show ?thesis using assms(1) by simp
next
  case (miss d)
  then show ?thesis using assms(1) by (simp add: health_inv_def)
next
  case (hit d msg balls')
  have a: "0 \<le> attack (p1_balls (battle s) ! i)" "0 \<le> multiplier d"
    using assms(1,2) hit(2) by (auto simp: health_inv_def)
  have l: "length balls' = length (p2_balls (battle s))" by (rule attack_fn_length [OF hit(4)])
  have "0 \<le> health (balls' ! k) \<and> health (balls' ! k) \<le> health (p2_balls b ! k)
       \<and> 0 \<le> attack (balls' ! k)" if "k < length (p2_balls b)" for k
  proof -
    have k: "k < length (p2_balls (battle s))" "0 \<le> health (p2_balls (battle s) ! k)"
      "health (p2_balls (battle s) ! k) \<le> health (p2_balls b ! k)"
      "0 \<le> attack (p2_balls (battle s) ! k)"
      using assms(1) that by (auto simp: health_inv_def)
    from attack_fn_health [OF hit(4) a k(1,2)] k(3,4) show ?thesis by simp
  qed
  then show ?thesis using assms(1) hit(2,6) l by (simp add: health_inv_def)
qed

lemma health_inv_p2_attacks:
  assumes "health_inv b s ds" and "j < length (p2_balls (battle s))"
    and "p2_attacks i j s ds = Inr (f, s', ds')"
  shows "health_inv b s' ds'"
  using assms(3)
proof (cases rule: p2_attacks_Inr)
  case dead
  then show ?thesis using assms(1) by simp
next
  case (miss d)
  then show ?thesis using assms(1) by (simp add: health_inv_def)
next
  case (hit d msg balls')
  have a: "0 \<le> attack (p2_balls (battle s) ! j)" "0 \<le> multiplier d"
    using assms(1,2) hit(2) by (auto simp: health_inv_def)
  have l: "length balls' = length (p1_balls (battle s))" by (rule attack_fn_length [OF hit(4)])
  have "0 \<le> health (balls' ! k) \<and> health (balls' ! k) \<le> health (p1_balls b ! k)
       \<and> 0 \<le> attack (balls' ! k)" if "k < length (p1_balls b)" for k
  proof -
    have k: "k < length (p1_balls (battle s))" "0 \<le> health (p1_balls (battle s) ! k)"
      "health (p1_balls (battle s) ! k) \<le> health (p1_balls b ! k)"
      "0 \<le> attack (p1_balls (battle s) ! k)"
      using assms(1) that by (auto simp: health_inv_def)
    from attack_fn_health [OF hit(4) a k(1,2)] k(3,4) show ?thesis by simp
  qed
  then show ?thesis using assms(1) hit(2,6) l by (simp add: health_inv_def)
qed

lemma health_non_increasing_without_negative_attack:
  assumes "gen_battle b ds = Inr (lines, b', ds')"
    and "\<forall>ball \<in> set (p1_balls b @ p2_balls b). 0 \<le> attack ball \<and> 0 \<le> health ball"
    and "\<forall>d \<in> set ds. 0 \<le> multiplier d"
  shows "length (p1_balls b') = length (p1_balls b) \<and> length (p2_balls b') = length (p2_balls b)
     \<and> (\<forall>k < length (p1_balls b).
          0 \<le> health (p1_balls b' ! k) \<and> health (p1_balls b' ! k) \<le> health (p1_balls b ! k))
     \<and> (\<forall>k < length (p2_balls b).
          0 \<le> health (p2_balls b' ! k) \<and> health (p2_balls b' ! k) \<le> health (p2_balls b ! k))"
proof (cases "list_all (\<lambda>ball. attack ball \<le> 0) (p1_balls b @ p2_balls b)")
  case True
  then have "b' = b" using assms(1) by (simp add: gen_battle_def)
  then show ?thesis using assms(2) by simp
next
  case False
  from False assms(1) show ?thesis
  proof (cases rule: gen_battle_Inr)
    case (1 s)
    have init: "health_inv b \<lparr>battle = b, turn = 0, yielded = []\<rparr> ds"
      using assms(2,3) by (simp add: health_inv_def)
    have "health_inv b s ds'"
      by (rule while_loop_invariant [where P = "health_inv b", OF 1(1) init])
        (erule health_inv_p1_attacks, assumption+, erule health_inv_p2_attacks, assumption+)
    then show ?thesis using 1(4,5) by (simp add: health_inv_def)
  qed
qed

section \<open>Rosters that the caller should not pass\<close>

text \<open>
  C6 as stated fails: nothing is rejected. With an empty first roster the second player is
  returned as the winner after 0 turns; a ball of health 0 is built alive and fights.
\<close>

theorem invalid_roster_accepted:
  "simulate_tournament_battle []
     [\<lparr>country = ''B'', ball_health = 60, ball_attack = 20, ball_emoji = []\<rparr>] ''P1'' ''P2'' []
   = Inr (\<lparr>result_winner = ''P2'', result_turns = 0, battle_log = []\<rparr>, [])
   \<and> simulate_tournament_battle
       [\<lparr>country = ''A'', ball_health = 0, ball_attack = 50, ball_emoji = []\<rparr>]
       [\<lparr>country = ''B'', ball_health = 10, ball_attack = 0, ball_emoji = []\<rparr>] ''P1'' ''P2''
       [\<lparr>miss_roll = 50, target = 0, multiplier = 1\<rparr>]
   = Inr (\<lparr>result_winner = ''P1'', result_turns = 1,
           battle_log = [''Turn 1: P1's A has killed P2's B'']\<rparr>, [])"
  by code_simp

lemma to_battle_ball_simps [simp]:
  "attack (to_battle_ball n ball) = ball_attack ball"
  "health (to_battle_ball n ball) = ball_health ball"
  "owner (to_battle_ball n ball) = n"
  "name (to_battle_ball n ball) = country ball"
  "dead (to_battle_ball n ball) = False"
  by (simp_all add: to_battle_ball_def)

lemma to_battle_ball_alive: "list_all dead (map (to_battle_ball n) bs) \<longleftrightarrow> bs = []"
  by (cases bs) simp_all

lemma to_battle_ball_stalemate:
  "list_all (\<lambda>ball. attack ball \<le> 0) (map (to_battle_ball n1) bs1 @ map (to_battle_ball n2) bs2)
   \<longleftrightarrow> (\<forall>ball \<in> set (bs1 @ bs2). ball_attack ball \<le> 0)"
  by (simp add: list_all_iff ball_Un)

text \<open>When a side has no living ball at entry, the loop is skipped.\<close>

lemma gen_battle_no_fight:
  assumes "\<not> list_all (\<lambda>ball. attack ball \<le> 0) (p1_balls b @ p2_balls b)"
    and "list_all dead (p1_balls b) \<or> list_all dead (p2_balls b)"
  shows "gen_battle b ds =
    (case (if list_all dead (p1_balls b) then p2_balls b else p1_balls b) of
       [] \<Rightarrow> Inl IndexError
     | ball # _ \<Rightarrow> Inr ([], b\<lparr>winner := owner ball, turns := 0\<rparr>, ds))"
proof -
  have w: "while_loop \<lparr>battle = b, turn = 0, yielded = []\<rparr> ds
      = Inr (\<lparr>battle = b, turn = 0, yielded = []\<rparr>, ds)"
    using assms(2) by (intro while_loop_stop) simp
  show ?thesis using assms
    by (auto simp: gen_battle_def w split: list.splits)
qed

text \<open>The result of \<^verbatim>\<open>simulate_tournament_battle\<close> when a roster is empty.\<close>

lemma simulate_empty_roster:
  assumes "player1_balls = [] \<or> player2_balls = []"
  shows "simulate_tournament_battle player1_balls player2_balls n1 n2 ds =
     Inr (if \<forall>ball \<in> set (player1_balls @ player2_balls). ball_attack ball \<le> 0
          then \<lparr>result_winner = [], result_turns = 0, battle_log = [stalemate_text]\<rparr>
          else \<lparr>result_winner = (if player1_balls = [] then n2 else n1), result_turns = 0,
                battle_log = []\<rparr>, ds)"
proof (cases "\<forall>ball \<in> set (player1_balls @ player2_balls). ball_attack ball \<le> 0")
  case True
  then show ?thesis
    using to_battle_ball_stalemate [of n1 player1_balls n2 player2_balls]
    by (simp add: simulate_tournament_battle_def gen_battle_def new_BattleInstance_def)
next
  case False
  let ?b = "new_BattleInstance (map (to_battle_ball n1) player1_balls)
     (map (to_battle_ball n2) player2_balls)"
  have ns: "\<not> list_all (\<lambda>ball. attack ball \<le> 0) (p1_balls ?b @ p2_balls ?b)"
    using False to_battle_ball_stalemate [of n1 player1_balls n2 player2_balls]
    by (simp add: new_BattleInstance_def)
  have d: "list_all dead (p1_balls ?b) \<or> list_all dead (p2_balls ?b)"
    using assms by (auto simp: new_BattleInstance_def)
  have g: "gen_battle ?b ds =
    (case (if list_all dead (p1_balls ?b) then p2_balls ?b else p1_balls ?b) of
       [] \<Rightarrow> Inl IndexError
     | ball # _ \<Rightarrow> Inr ([], ?b\<lparr>winner := owner ball, turns := 0\<rparr>, ds))"
    by (rule gen_battle_no_fight [OF ns d])
  show ?thesis
  proof (cases "player1_balls = []")
    case True
    then obtain x xs where "player2_balls = x # xs" using False by (cases player2_balls) auto
    then show ?thesis using True False g
      by (simp add: simulate_tournament_battle_def new_BattleInstance_def)
  next
    case F: False
    then obtain x xs where "player1_balls = x # xs" by (cases player1_balls) auto
    moreover have "player2_balls = []" using assms F by simp
    ultimately show ?thesis using False g
      by (simp add: simulate_tournament_battle_def new_BattleInstance_def)
  qed
qed

text \<open>
  C6, as amended. \<^verbatim>\<open>simulate_tournament_battle\<close> does not validate its rosters. When
  one of them is empty it returns normally, consumes no draw and counts 0 turns: the
  stalemate line and no winner when every ball supplied has \<open>attack \<le> 0\<close> (two empty
  rosters included), otherwise no line at all and, as winner, the player whose roster is
  not empty. A ball is built alive whatever its health, so one of health 0 or less takes
  part like any other.
\<close>

theorem empty_roster_result:
  assumes "player1_balls = [] \<or> player2_balls = []"
  shows "simulate_tournament_battle player1_balls player2_balls n1 n2 ds =
     Inr (if \<forall>ball \<in> set (player1_balls @ player2_balls). ball_attack ball \<le> 0
          then \<lparr>result_winner = [], result_turns = 0, battle_log = [stalemate_text]\<rparr>
          else \<lparr>result_winner = (if player1_balls = [] then n2 else n1), result_turns = 0,
                battle_log = []\<rparr>, ds)
       \<and> \<not> dead (to_battle_ball n ball)
       \<and> health (to_battle_ball n ball) = ball_health ball"
  using simulate_empty_roster [OF assms] by simp

theorem empty_roster_result_witness:
  "([] = ([] :: TournamentBall list)
      \<or> [\<lparr>country = ''B'', ball_health = 60, ball_attack = 20, ball_emoji = []\<rparr>] = [])
   \<and> simulate_tournament_battle []
       [\<lparr>country = ''B'', ball_health = 60, ball_attack = 20, ball_emoji = []\<rparr>] ''P1'' ''P2''
       [\<lparr>miss_roll = 50, target = 0, multiplier = 1\<rparr>]
     = Inr (\<lparr>result_winner = ''P2'', result_turns = 0, battle_log = []\<rparr>,
            [\<lparr>miss_roll = 50, target = 0, multiplier = 1\<rparr>])"
  using empty_roster_result [of "[]"
      "[\<lparr>country = ''B'', ball_health = 60, ball_attack = 20, ball_emoji = []\<rparr>]"
      "''P1''" "''P2''" "[\<lparr>miss_roll = 50, target = 0, multiplier = 1\<rparr>]"]
  by simp

section \<open>Determinism\<close>

lemma attack_fn_consumed:
  "target d = target d' \<Longrightarrow> multiplier d = multiplier d' \<Longrightarrow>
   attack_fn a balls d = attack_fn a balls d'"
  by (simp add: attack_fn_def Let_def)

lemma p1_attacks_consumed:
  assumes "consumed d = consumed d'" and "\<not> dead (p1_balls (battle s) ! i)"
  shows "p1_attacks i j s (d # xs) = p1_attacks i j s (d' # xs)"
proof -
  have m: "miss_roll d = miss_roll d'" using assms by (simp add: consumed_def)
  show ?thesis
  proof (cases "random_events (miss_roll d) = 1")
    case True
    then show ?thesis using m assms(2) by (simp add: p1_attacks_def Let_def)
  next
    case False
    then have "target d = target d'" "multiplier d = multiplier d'"
      using assms m by (simp_all add: consumed_def)
    then have "attack_fn a balls d = attack_fn a balls d'" for a balls
      by (rule attack_fn_consumed)
    then show ?thesis using m assms(2) by (simp add: p1_attacks_def Let_def)
  qed
qed

lemma p2_attacks_consumed:
  assumes "consumed d = consumed d'" and "\<not> dead (p2_balls (battle s) ! j)"
  shows "p2_attacks i j s (d # xs) = p2_attacks i j s (d' # xs)"
proof -
  have m: "miss_roll d = miss_roll d'" using assms by (simp add: consumed_def)
  show ?thesis
  proof (cases "random_events (miss_roll d) = 1")
    case True
    then show ?thesis using m assms(2) by (simp add: p2_attacks_def Let_def)
  next
    case False
    then have "target d = target d'" "multiplier d = multiplier d'"
      using assms m by (simp_all add: consumed_def)
    then have "attack_fn a balls d = attack_fn a balls d'" for a balls
      by (rule attack_fn_consumed)
    then show ?thesis using m assms(2) by (simp add: p2_attacks_def Let_def)
  qed
qed

text \<open>A block reads at most the head of the supply and hands the tail on.\<close>

lemma p1_attacks_tail:
  "p1_attacks i j s (d # ds') = Inr (f, s', ds') \<Longrightarrow> p1_attacks i j s (d # xs) = Inr (f, s', xs)"
  by (auto simp: p1_attacks_def Let_def split: if_splits sum.splits prod.splits)

lemma p2_attacks_tail:
  "p2_attacks i j s (d # ds') = Inr (f, s', ds') \<Longrightarrow> p2_attacks i j s (d # xs) = Inr (f, s', xs)"
  by (auto simp: p2_attacks_def Let_def split: if_splits sum.splits prod.splits)

lemma p1_attacks_frame:
  assumes "p1_attacks i j s ds = Inr (f, s', ds')"
  shows "\<exists>us. ds = us @ ds' \<and> (\<forall>us' xs. map consumed us' = map consumed us \<longrightarrow>
           p1_attacks i j s (us' @ xs) = Inr (f, s', xs))"
proof (cases "dead (p1_balls (battle s) ! i)")
  case True
  then have "p1_attacks i j s xs = Inr (Fallthrough, s, xs)" for xs
    by (simp add: p1_attacks_def)
  moreover from this [of ds] assms have "f = Fallthrough" "s' = s" "ds' = ds" by simp_all
  ultimately show ?thesis by (intro exI [of _ "[]"]) simp
next
  case False
  with p1_attacks_draws [OF assms] obtain d where d: "ds = d # ds'" by auto
  have "p1_attacks i j s (us' @ xs) = Inr (f, s', xs)"
    if "map consumed us' = map consumed [d]" for us' xs
  proof -
    from that obtain d' where u: "us' = [d']" and c: "consumed d' = consumed d"
      by (cases us') auto
    have "p1_attacks i j s (d # xs) = Inr (f, s', xs)"
      using assms d by (auto intro: p1_attacks_tail)
    then show ?thesis using p1_attacks_consumed [OF c False, of j xs] u by simp
  qed
  then show ?thesis using d by (intro exI [of _ "[d]"]) simp
qed

lemma p2_attacks_frame:
  assumes "p2_attacks i j s ds = Inr (f, s', ds')"
  shows "\<exists>us. ds = us @ ds' \<and> (\<forall>us' xs. map consumed us' = map consumed us \<longrightarrow>
           p2_attacks i j s (us' @ xs) = Inr (f, s', xs))"
proof (cases "dead (p2_balls (battle s) ! j)")
  case True
  then have "p2_attacks i j s xs = Inr (Fallthrough, s, xs)" for xs
    by (simp add: p2_attacks_def)
  moreover from this [of ds] assms have "f = Fallthrough" "s' = s" "ds' = ds" by simp_all
  ultimately show ?thesis by (intro exI [of _ "[]"]) simp
next
  case False
  with p2_attacks_draws [OF assms] obtain d where d: "ds = d # ds'" by auto
  have "p2_attacks i j s (us' @ xs) = Inr (f, s', xs)"
    if "map consumed us' = map consumed [d]" for us' xs
  proof -
    from that obtain d' where u: "us' = [d']" and c: "consumed d' = consumed d"
      by (cases us') auto
    have "p2_attacks i j s (d # xs) = Inr (f, s', xs)"
      using assms d by (auto intro: p2_attacks_tail)
    then show ?thesis using p2_attacks_consumed [OF c False, of i xs] u by simp
  qed
  then show ?thesis using d by (intro exI [of _ "[d]"]) simp
qed

lemma for_body_frame:
  assumes "for_body (i, j) s ds = Inr (f, s', ds')"
  shows "\<exists>us. ds = us @ ds' \<and> (\<forall>us' xs. map consumed us' = map consumed us \<longrightarrow>
           for_body (i, j) s (us' @ xs) = Inr (f, s', xs))"
  using assms
proof (cases rule: for_body_Inr)
  case first
  from p1_attacks_frame [OF first(1)] obtain us where us: "ds = us @ ds'"
    and fr: "\<And>us' xs. map consumed us' = map consumed us \<Longrightarrow>
           p1_attacks i j s (us' @ xs) = Inr (f, s', xs)" by blast
  have "for_body (i, j) s (us' @ xs) = Inr (f, s', xs)"
    if "map consumed us' = map consumed us" for us' xs
    using fr [OF that] first(2) by (cases f) (simp_all add: for_body_def)
  then show ?thesis using us by blast
next
  case (both s1 ds1)
  from p1_attacks_frame [OF both(1)] obtain us1 where us1: "ds = us1 @ ds1"
    and fr1: "\<And>us' xs. map consumed us' = map consumed us1 \<Longrightarrow>
           p1_attacks i j s (us' @ xs) = Inr (Fallthrough, s1, xs)" by blast
  from p2_attacks_frame [OF both(2)] obtain us2 where us2: "ds1 = us2 @ ds'"
    and fr2: "\<And>us' xs. map consumed us' = map consumed us2 \<Longrightarrow>
           p2_attacks i j s1 (us' @ xs) = Inr (f, s', xs)" by blast
  have "for_body (i, j) s (us' @ xs) = Inr (f, s', xs)"
    if "map consumed us' = map consumed (us1 @ us2)" for us' xs
  proof -
    from that obtain v1 v2 where v: "us' = v1 @ v2" "map consumed v1 = map consumed us1"
      "map consumed v2 = map consumed us2"
      by (auto simp: map_eq_append_conv)
    show ?thesis using fr1 [OF v(2), of "v2 @ xs"] fr2 [OF v(3), of xs] v(1)
      by (simp add: for_body_def)
  qed
  then show ?thesis using us1 us2 by (intro exI [of _ "us1 @ us2"]) simp
qed

lemma for_loop_frame:
  assumes "for_loop ps s ds = Inr (s', ds')"
  shows "\<exists>us. ds = us @ ds' \<and> (\<forall>us' xs. map consumed us' = map consumed us \<longrightarrow>
           for_loop ps s (us' @ xs) = Inr (s', xs))"
  using assms
proof (induction ps arbitrary: s ds)
  case Nil
  then show ?case by (intro exI [of _ "[]"]) simp
next
  case (Cons p ps)
  obtain i j where p: "p = (i, j)" by (cases p)
  from Cons.prems show ?case
  proof (cases rule: for_loop_Cons_Inr)
    case break
    from for_body_frame [OF break [unfolded p]] obtain us where us: "ds = us @ ds'"
      and fr: "\<And>us' xs. map consumed us' = map consumed us \<Longrightarrow>
           for_body (i, j) s (us' @ xs) = Inr (Break, s', xs)" by blast
    have "for_loop (p # ps) s (us' @ xs) = Inr (s', xs)"
      if "map consumed us' = map consumed us" for us' xs
      using fr [OF that] p by simp
    then show ?thesis using us by blast
  next
    case (more f s1 ds1)
    from for_body_frame [OF more(1) [unfolded p]] obtain us1 where us1: "ds = us1 @ ds1"
      and fr1: "\<And>us' xs. map consumed us' = map consumed us1 \<Longrightarrow>
           for_body (i, j) s (us' @ xs) = Inr (f, s1, xs)" by blast
    from Cons.IH [OF more(3)] obtain us2 where us2: "ds1 = us2 @ ds'"
      and fr2: "\<And>us' xs. map consumed us' = map consumed us2 \<Longrightarrow>
           for_loop ps s1 (us' @ xs) = Inr (s', xs)" by blast
    have "for_loop (p # ps) s (us' @ xs) = Inr (s', xs)"
      if "map consumed us' = map consumed (us1 @ us2)" for us' xs
    proof -
      from that obtain v1 v2 where v: "us' = v1 @ v2" "map consumed v1 = map consumed us1"
        "map consumed v2 = map consumed us2"
        by (auto simp: map_eq_append_conv)
      show ?thesis using fr1 [OF v(2), of "v2 @ xs"] fr2 [OF v(3), of xs] v(1) p more(2)
        by (cases f) simp_all
    qed
    then show ?thesis using us1 us2 by (intro exI [of _ "us1 @ us2"]) simp
  qed
qed

lemma while_loop_frame:
  assumes "while_loop s ds = Inr (s', ds')"
  shows "\<exists>us. ds = us @ ds' \<and> (\<forall>us' xs. map consumed us' = map consumed us \<longrightarrow>
           while_loop s (us' @ xs) = Inr (s', xs))"
  using assms
proof (induction s ds rule: while_loop.induct)
  case (1 s ds)
  show ?case
  proof (cases "list_ex (\<lambda>ball. \<not> dead ball) (p1_balls (battle s))
         \<and> list_ex (\<lambda>ball. \<not> dead ball) (p2_balls (battle s))")
    case False
    then have d: "list_all dead (p1_balls (battle s)) \<or> list_all dead (p2_balls (battle s))"
      by (auto simp: while_cond_iff)
    from while_loop_stop [OF this, of ds] "1.prems" have "s' = s" "ds' = ds" by simp_all
    then show ?thesis using while_loop_stop [OF d] by (intro exI [of _ "[]"]) simp
  next
    case True
    let ?ps = "zip (alive (p1_balls (battle s))) (alive (p2_balls (battle s)))"
    from True have a: "\<not> list_all dead (p1_balls (battle s))"
        "\<not> list_all dead (p2_balls (battle s))"
      by (simp_all add: while_cond_iff)
    from while_loop_round [OF a, of ds] "1.prems"(1) obtain s1 ds1
      where f: "for_loop ?ps s ds = Inr (s1, ds1)" and w: "while_loop s1 ds1 = Inr (s', ds')"
      by (auto split: sum.splits)
    from for_loop_frame [OF f] obtain us1 where us1: "ds = us1 @ ds1"
      and fr1: "\<And>us' xs. map consumed us' = map consumed us1 \<Longrightarrow>
           for_loop ?ps s (us' @ xs) = Inr (s1, xs)" by blast
    from "1.IH" [OF True refl refl f refl w] obtain us2 where us2: "ds1 = us2 @ ds'"
      and fr2: "\<And>us' xs. map consumed us' = map consumed us2 \<Longrightarrow>
           while_loop s1 (us' @ xs) = Inr (s', xs)" by blast
    have "while_loop s (us' @ xs) = Inr (s', xs)"
      if "map consumed us' = map consumed (us1 @ us2)" for us' xs
    proof -
      from that obtain v1 v2 where v: "us' = v1 @ v2" "map consumed v1 = map consumed us1"
        "map consumed v2 = map consumed us2"
        by (auto simp: map_eq_append_conv)
      show ?thesis using fr1 [OF v(2), of "v2 @ xs"] fr2 [OF v(3), of xs] v(1)
        by (simp add: while_loop_round [OF a])
    qed
    then show ?thesis using us1 us2 by (intro exI [of _ "us1 @ us2"]) simp
  qed
qed

lemma gen_battle_frame:
  assumes "gen_battle b ds = Inr (lines, b', ds')"
  shows "\<exists>used. ds = used @ ds' \<and>
     (\<forall>used' rest. map consumed used' = map consumed used \<longrightarrow>
        gen_battle b (used' @ rest) = Inr (lines, b', rest))"
proof (cases "list_all (\<lambda>ball. attack ball \<le> 0) (p1_balls b @ p2_balls b)")
  case True
  then have g: "gen_battle b xs = Inr ([stalemate_text], b, xs)" for xs
    by (simp add: gen_battle_def)
  from g [of ds] assms have "lines = [stalemate_text]" "b' = b" "ds' = ds" by simp_all
  then show ?thesis using g by (intro exI [of _ "[]"]) simp
next
  case False
  from assms False obtain s where
    w: "while_loop \<lparr>battle = b, turn = 0, yielded = []\<rparr> ds = Inr (s, ds')"
    by (auto simp: gen_battle_def split: sum.splits)
  from while_loop_frame [OF w] obtain us where us: "ds = us @ ds'"
    and fr: "\<And>us' xs. map consumed us' = map consumed us \<Longrightarrow>
       while_loop \<lparr>battle = b, turn = 0, yielded = []\<rparr> (us' @ xs) = Inr (s, xs)" by blast
  have "gen_battle b (us' @ xs) = Inr (lines, b', xs)"
    if "map consumed us' = map consumed us" for us' xs
    using fr [OF that, of xs] assms w False
    by (auto simp: gen_battle_def split: sum.splits if_splits list.splits)
  then show ?thesis using us by blast
qed

lemma example_simulation:
  "simulate_tournament_battle
     [\<lparr>country = ''A'', ball_health = 100, ball_attack = 50, ball_emoji = []\<rparr>]
     [\<lparr>country = ''B'', ball_health = 60, ball_attack = 20, ball_emoji = []\<rparr>] ''P1'' ''P2''
     example_draws
   = Inr (example_result, [])"
  by code_simp

text \<open>
  C9. The result of \<^verbatim>\<open>simulate_tournament_battle\<close> is determined by the rosters, the
  player names and the values that the run draws from the random generator: a run that
  returns has consumed a prefix of the supply, and every run on the same input whose
  supply starts with the same consumed values (whatever follows them, and whatever the
  generator would have returned to calls that are not made) returns the same log, the
  same winner and the same turn count.
\<close>

theorem deterministic_given_draws:
  assumes "simulate_tournament_battle bs1 bs2 n1 n2 ds = Inr (r, ds')"
  shows "\<exists>used. ds = used @ ds' \<and>
     (\<forall>used' rest. map consumed used' = map consumed used \<longrightarrow>
        simulate_tournament_battle bs1 bs2 n1 n2 (used' @ rest) = Inr (r, rest))"
proof -
  let ?b = "new_BattleInstance (map (to_battle_ball n1) bs1) (map (to_battle_ball n2) bs2)"
  from assms obtain lines b' where g: "gen_battle ?b ds = Inr (lines, b', ds')"
    and r: "r = \<lparr>result_winner = winner b', result_turns = turns b', battle_log = lines\<rparr>"
    by (auto simp: simulate_tournament_battle_def Let_def split: sum.splits)
  from gen_battle_frame [OF g] obtain used where us: "ds = used @ ds'"
    and fr: "\<And>used' rest. map consumed used' = map consumed used \<Longrightarrow>
        gen_battle ?b (used' @ rest) = Inr (lines, b', rest)" by blast
  have "simulate_tournament_battle bs1 bs2 n1 n2 (used' @ rest) = Inr (r, rest)"
    if "map consumed used' = map consumed used" for used' rest
    using fr [OF that, of rest] r by (simp add: simulate_tournament_battle_def Let_def)
  then show ?thesis using us by blast
qed

theorem deterministic_given_draws_witness:
  "simulate_tournament_battle
     [\<lparr>country = ''A'', ball_health = 100, ball_attack = 50, ball_emoji = []\<rparr>]
     [\<lparr>country = ''B'', ball_health = 60, ball_attack = 20, ball_emoji = []\<rparr>] ''P1'' ''P2''
     example_draws
   = Inr (example_result, [])
   \<and> map consumed example_other_draws = map consumed example_draws
   \<and> simulate_tournament_battle
     [\<lparr>country = ''A'', ball_health = 100, ball_attack = 50, ball_emoji = []\<rparr>]
     [\<lparr>country = ''B'', ball_health = 60, ball_attack = 20, ball_emoji = []\<rparr>] ''P1'' ''P2''
     (example_other_draws @ [\<lparr>miss_roll = 0, target = 0, multiplier = 1\<rparr>])
   = Inr (example_result, [\<lparr>miss_roll = 0, target = 0, multiplier = 1\<rparr>])"
proof -
  have c: "map consumed example_other_draws = map consumed example_draws"
    by code_simp
  from deterministic_given_draws [OF example_simulation] obtain used
    where u: "example_draws = used @ []"
      and fr: "\<And>used' rest. map consumed used' = map consumed used \<Longrightarrow>
        simulate_tournament_battle
          [\<lparr>country = ''A'', ball_health = 100, ball_attack = 50, ball_emoji = []\<rparr>]
          [\<lparr>country = ''B'', ball_health = 60, ball_attack = 20, ball_emoji = []\<rparr>] ''P1'' ''P2''
          (used' @ rest) = Inr (example_result, rest)"
    by blast
  from u have "used = example_draws" by simp
  with fr [of example_other_draws] c example_simulation show ?thesis by simp
qed

section \<open>Termination\<close>






















end
